theory Spec2Isabelle
  imports Main "HOL-Library.Word"
begin

unbundle bit_operations_syntax

section \<open>The data of BERT.c\<close>

text \<open>
  BERT.c is written for the CCS C compiler (PIC16F648A). In that dialect \<open>short\<close> is a
  one-bit unsigned integer (int1), \<open>int\<close> is an unsigned 8-bit integer and \<open>long\<close> is
  an unsigned 16-bit integer. The globals of the program are the fields of one record.

  The array \<open>short tap[16]\<close> is an array of one-bit cells. The compiler packs it into two
  bytes, cell \<open>i\<close> being bit \<open>i mod 8\<close> of byte \<open>i div 8\<close>; the program itself relies on
  this when it hands the array to \<open>shift_right\<close> with a length of 2 bytes. The two bytes
  are modelled as one 16-bit word whose bit \<open>i\<close> is \<open>tap[i]\<close>.

  The last two fields are not variables of the program. \<open>SYNC_LED\<close> is the level the
  program has last driven on the output pin of that name. \<open>sampled\<close> counts the data
  bits the program has sampled from the pin DATA_IN since power-on, and so tells which
  level of the input the next sample reads.
\<close>

record bert =
  ClockNeg :: bool
  DataNeg :: bool
  RenzokuError :: "8 word"
  ThresError :: "8 word"
  ErrorBits :: "16 word"
  TotalBits :: "16 word"
  CountBits :: "16 word"
  tap :: "16 word"
  TBI :: "8 word"
  SYNC_LED :: bool
  sampled :: nat

text \<open>\<open>long const tbit[6] = {1000, 5000, 10000, 30000, 50000, 65535}\<close>\<close>

definition tbit :: "16 word list" where
  "tbit = [1000, 5000, 10000, 30000, 50000, 65535]"

section \<open>The shift register\<close>

text \<open>
  \<open>shift_right(address, bytes, value)\<close> is a built-in of the CCS compiler: it shifts the
  \<open>bytes\<close> bytes at \<open>address\<close> by one bit towards the least significant bit, bit 0 of the
  lowest byte being the least significant bit of the whole; that bit is shifted out, and
  \<open>value\<close> becomes the most significant bit of the highest byte. Here \<open>bytes\<close> is 2, so
  the operation is a logical right shift of a 16-bit word with \<open>value\<close> entering as
  bit 15.
\<close>

definition shift_right :: "16 word \<Rightarrow> bool \<Rightarrow> 16 word" where
  "shift_right a v = (if v then set_bit 15 (drop_bit 1 a) else drop_bit 1 a)"

text \<open>The third argument of the call in the source: \<open>tap[7] ^ tap[11]\<close>.\<close>

definition feedback :: "16 word \<Rightarrow> bool" where
  "feedback t = (bit t 7 \<noteq> bit t 11)"

text \<open>The statement \<open>shift_right(tap, 2, tap[7] ^ tap[11])\<close>; the argument is evaluated
  before the shift.\<close>

definition advance :: "16 word \<Rightarrow> 16 word" where
  "advance t = shift_right t (feedback t)"

text \<open>The statement \<open>tap[15] = ~tap[15]\<close>: the complement of a one-bit cell.\<close>

definition override :: "16 word \<Rightarrow> 16 word" where
  "override t = flip_bit 15 t"

text \<open>
  The step as the specification words it, for comparison with \<open>advance\<close>: the feedback
  bit is cell 7 XOR cell 11, every cell moves one position towards the higher index,
  cell 15 is discarded and the feedback bit enters at cell 0.
\<close>

definition spec_advance :: "16 word \<Rightarrow> 16 word" where
  "spec_advance t = (if feedback t then set_bit 0 (push_bit 1 t) else push_bit 1 t)"

section \<open>Sampling\<close>

text \<open>
  Each loop iteration of \<open>countber\<close> busy-waits for the clock to read high
  (\<open>while ((!input(CLK_IN)) ^ ClockNeg);\<close>), reads DATA_IN once, and busy-waits for the
  clock to read low. The wait loops change no variable of the program; what an iteration
  takes from the outside is the one level it reads from DATA_IN. The input of the model
  is therefore the sequence of these levels: \<open>inp k\<close> is the level of DATA_IN at the
  \<open>k\<close>-th sample after power-on.
\<close>

type_synonym data_in = "nat \<Rightarrow> bool"

text \<open>The expression \<open>input(DATA_IN) ^ DataNeg\<close>.\<close>

definition sample :: "data_in \<Rightarrow> bert \<Rightarrow> bool" where
  "sample inp s = (inp (sampled s) \<noteq> DataNeg s)"

text \<open>The expected bit \<open>tap[15]\<close>.\<close>

definition expected :: "bert \<Rightarrow> bool" where
  "expected s = bit (tap s) 15"

section \<open>countber: the sync phase\<close>

text \<open>
  The body of the first \<open>for\<close> loop: on a mismatch the counter is set to 0 and
  \<open>tap[15]\<close> is complemented; then, in either case, the register is shifted.
\<close>

definition sync_body :: "data_in \<Rightarrow> bert \<Rightarrow> bert" where
  "sync_body inp s =
     (let s1 = (if expected s = sample inp s then s
                else s\<lparr>RenzokuError := 0, tap := override (tap s)\<rparr>);
          s2 = s1\<lparr>sampled := Suc (sampled s1)\<rparr>
      in s2\<lparr>tap := advance (tap s2)\<rparr>)"

text \<open>One turn of the loop: the body, then the loop's own \<open>RenzokuError++\<close>.\<close>

definition sync_iteration :: "data_in \<Rightarrow> bert \<Rightarrow> bert" where
  "sync_iteration inp s =
     (let s' = sync_body inp s in s'\<lparr>RenzokuError := RenzokuError s' + 1\<rparr>)"

text \<open>
  \<open>for (...; RenzokuError < ThresError; RenzokuError++) {...}\<close>. The loop has no bound
  on its number of turns; a run that never leaves it has the value \<open>None\<close>.
\<close>

partial_function (option) sync_loop :: "data_in \<Rightarrow> bert \<Rightarrow> bert option" where
  "sync_loop inp s =
     (if RenzokuError s < ThresError s then sync_loop inp (sync_iteration inp s)
      else Some s)"

declare sync_loop.simps [code]

definition sync_phase :: "data_in \<Rightarrow> bert \<Rightarrow> bert option" where
  "sync_phase inp s = sync_loop inp (s\<lparr>RenzokuError := 0\<rparr>)"

section \<open>countber: the count phase\<close>

definition count_body :: "data_in \<Rightarrow> bert \<Rightarrow> bert" where
  "count_body inp s =
     (let s1 = (if expected s = sample inp s then s
                else s\<lparr>ErrorBits := ErrorBits s + 1\<rparr>);
          s2 = s1\<lparr>sampled := Suc (sampled s1)\<rparr>
      in s2\<lparr>tap := advance (tap s2)\<rparr>)"

definition count_iteration :: "data_in \<Rightarrow> bert \<Rightarrow> bert" where
  "count_iteration inp s =
     (let s' = count_body inp s in s'\<lparr>CountBits := CountBits s' + 1\<rparr>)"

text \<open>\<open>for (CountBits = 0; CountBits < TotalBits; CountBits++) {...}\<close>\<close>

function count_loop :: "data_in \<Rightarrow> bert \<Rightarrow> bert" where
  "count_loop inp s =
     (if CountBits s < TotalBits s then count_loop inp (count_iteration inp s) else s)"
  by pat_completeness auto
termination
proof (relation "measure (\<lambda>(inp, s). unat (TotalBits s) - unat (CountBits s))")
  show "wf (measure (\<lambda>(inp, s). unat (TotalBits s) - unat (CountBits s)))"
    by simp
next
  fix inp :: data_in and s :: bert
  assume lt: "CountBits s < TotalBits s"
  then have "unat (CountBits s) < unat (TotalBits s)"
    by (simp add: word_less_nat_alt)
  moreover from lt have "unat (CountBits s + 1) = Suc (unat (CountBits s))"
    by unat_arith
  ultimately show "((inp, count_iteration inp s), (inp, s))
      \<in> measure (\<lambda>(inp, s). unat (TotalBits s) - unat (CountBits s))"
    by (auto simp add: count_iteration_def count_body_def Let_def)
qed

declare count_loop.simps [simp del]

definition count_phase :: "data_in \<Rightarrow> bert \<Rightarrow> bert" where
  "count_phase inp s = count_loop inp (s\<lparr>CountBits := 0\<rparr>)"

section \<open>countber\<close>

text \<open>
  The statements of \<open>countber\<close> before its first loop. The LCD output and the delay are
  left out; \<open>output_low(SYNC_LED)\<close> is kept. No statement here writes \<open>tap\<close>.
\<close>

definition countber_init :: "bert \<Rightarrow> bert" where
  "countber_init s = s\<lparr>RenzokuError := 0, ErrorBits := 0, CountBits := 0, SYNC_LED := False\<rparr>"

definition countber :: "data_in \<Rightarrow> bert \<Rightarrow> bert option" where
  "countber inp s =
     (case sync_phase inp (countber_init s) of
        None \<Rightarrow> None
      | Some l \<Rightarrow> Some (count_phase inp (l\<lparr>SYNC_LED := True\<rparr>)))"

section \<open>show_ber\<close>

text \<open>
  \<open>show_ber\<close> converts the two counters to \<open>float\<close> and prints
  \<open>(fEB / fCB) * 100.0\<close> together with the counters. The value of a floating-point
  expression on this target is not modelled; the model keeps the expression itself, so
  that it shows which operations the function performs on which operands. The wait for a
  key and the call of \<open>countber\<close> that may follow are left out.
\<close>

datatype float_expr =
  Of_long "16 word"
  | Quotient float_expr float_expr
  | Times_100 float_expr

record lcd_ber =
  BER :: float_expr
  E :: "16 word"
  C :: "16 word"

definition show_ber :: "bert \<Rightarrow> lcd_ber" where
  "show_ber s =
     (let fCB = Of_long (CountBits s); fEB = Of_long (ErrorBits s)
      in \<lparr>BER = Times_100 (Quotient fEB fCB), E = ErrorBits s, C = CountBits s\<rparr>)"

text \<open>The divisor of the division that \<open>show_ber\<close> performs.\<close>

fun divisor :: "float_expr \<Rightarrow> 16 word option" where
  "divisor (Times_100 (Quotient a (Of_long d))) = Some d"
| "divisor e = None"

section \<open>Configuration\<close>

text \<open>
  \<open>tbit[i]\<close> reads a constant table of six entries. For an index past the table the
  source fixes no value: what such a read yields depends on what the compiler placed
  behind the table. That value is a parameter \<open>past\<close> of the model.
\<close>

definition tbit_read :: "(8 word \<Rightarrow> 16 word) \<Rightarrow> 8 word \<Rightarrow> 16 word" where
  "tbit_read past i = (if unat i < length tbit then tbit ! unat i else past i)"

text \<open>
  The block of \<open>main\<close> that loads the settings; \<open>ee\<close> is the content of the data
  EEPROM, by address. A byte assigned to a one-bit variable gives 1 exactly when the byte
  is not 0.
\<close>

definition load_settings :: "(8 word \<Rightarrow> 16 word) \<Rightarrow> (8 word \<Rightarrow> 8 word) \<Rightarrow> bert \<Rightarrow> bert" where
  "load_settings past ee s =
     (let s1 = s\<lparr>ClockNeg := (ee 0 \<noteq> 0)\<rparr>;
          s2 = s1\<lparr>DataNeg := (ee 1 \<noteq> 0)\<rparr>;
          s3 = s2\<lparr>TBI := ee 2\<rparr>;
          s4 = s3\<lparr>TotalBits := tbit_read past (TBI s3)\<rparr>
      in s4\<lparr>ThresError := ee 3\<rparr>)"

text \<open>\<open>setsetting\<close>, without its delay and its wait for the key release.\<close>

definition setsetting :: "(8 word \<Rightarrow> 16 word) \<Rightarrow> bert \<Rightarrow> bert" where
  "setsetting past s =
     (let s1 = s\<lparr>TBI := TBI s + 1\<rparr>;
          s2 = (if TBI s1 = 6 then s1\<lparr>TBI := 0\<rparr> else s1)
      in s2\<lparr>TotalBits := tbit_read past (TBI s2)\<rparr>)"

section \<open>Notions used to state the properties\<close>

text \<open>
  The number of mismatches that \<open>n\<close> successive comparisons find when the register
  starts at \<open>t\<close>, runs free (one shift per comparison, no other write) and the
  comparisons read the input from position \<open>p\<close> on with data polarity flag \<open>neg\<close>.
\<close>

definition mismatches :: "data_in \<Rightarrow> bool \<Rightarrow> 16 word \<Rightarrow> nat \<Rightarrow> nat \<Rightarrow> nat" where
  "mismatches inp neg t p n =
     length (filter (\<lambda>k. bit ((advance ^^ k) t) 15 \<noteq> (inp (p + k) \<noteq> neg)) [0..<n])"

text \<open>Every level of the input inverted, and the statement \<open>DataNeg = ~DataNeg\<close>.\<close>

definition invert :: "data_in \<Rightarrow> data_in" where
  "invert inp k = (\<not> inp k)"

definition toggle_DataNeg :: "bert \<Rightarrow> bert" where
  "toggle_DataNeg s = s\<lparr>DataNeg := \<not> DataNeg s\<rparr>"

section \<open>Concrete inputs\<close>

text \<open>The EEPROM content that \<open>#ROM 0x2100 = {0,0,2,10}\<close> programs; the other cells are
  erased.\<close>

definition rom_2100 :: "8 word \<Rightarrow> 8 word" where
  "rom_2100 a = (if a = 0 then 0 else if a = 1 then 0 else if a = 2 then 2
                 else if a = 3 then 10 else 255)"

text \<open>A table read that yields 0 for every index past the table.\<close>

definition past_zero :: "8 word \<Rightarrow> 16 word" where
  "past_zero i = 0"

text \<open>The state at power-on: \<open>tap\<close> has its initialiser, sixteen ones; the other
  variables are taken as 0.\<close>

definition power_on :: bert where
  "power_on = \<lparr>ClockNeg = False, DataNeg = False, RenzokuError = 0, ThresError = 0,
     ErrorBits = 0, TotalBits = 0, CountBits = 0, tap = 0xFFFF, TBI = 0,
     SYNC_LED = False, sampled = 0\<rparr>"

text \<open>DATA_IN held low, and DATA_IN held high.\<close>

definition data_low :: data_in where
  "data_low k = False"

definition data_high :: data_in where
  "data_high k = True"

text \<open>The output of the generator itself, started from sixteen ones.\<close>

definition pn_data :: data_in where
  "pn_data k = bit ((advance ^^ k) 0xFFFF) 15"

section \<open>Facts about the shift register\<close>

lemma shift_right_bit:
  "bit (shift_right a v) i = (if i = 15 then v else i < 15 \<and> bit a (Suc i))"
  by (auto simp add: shift_right_def bit_simps dest: bit_imp_le_length)

lemma advance_bit:
  "bit (advance t) i = (if i = 15 then bit t 7 \<noteq> bit t 11 else i < 15 \<and> bit t (Suc i))"
  by (simp add: advance_def feedback_def shift_right_bit)

lemma override_bit:
  "bit (override t) i = (if i = 15 then \<not> bit t 15 else bit t i)"
  by (auto simp add: override_def bit_simps dest: bit_imp_le_length)

lemma bit_double_word16:
  "bit (t * 2 :: 16 word) i = (0 < i \<and> i < 16 \<and> bit t (i - 1))"
proof -
  have "t * 2 = push_bit 1 t"
    by (simp add: push_bit_eq_mult)
  then show ?thesis
    by (auto simp only: bit_push_bit_iff possible_bit_word len_of_numeral_defs One_nat_def)
qed

lemma spec_advance_bit:
  "bit (spec_advance t) i =
     (if i = 0 then bit t 7 \<noteq> bit t 11 else i < 16 \<and> bit t (i - 1))"
  by (auto simp add: spec_advance_def feedback_def bit_simps bit_double_word16)

text \<open>\<open>spec_advance\<close> is the step of the specification, cell by cell.\<close>

lemma spec_advance_cells:
  "map (bit (spec_advance t)) [0..<16] = (bit t 7 \<noteq> bit t 11) # map (bit t) [0..<15]"
proof (rule nth_equalityI)
  show "length (map (bit (spec_advance t)) [0..<16]) =
      length ((bit t 7 \<noteq> bit t 11) # map (bit t) [0..<15])"
    by simp
next
  fix i assume "i < length (map (bit (spec_advance t)) [0..<16])"
  then show "map (bit (spec_advance t)) [0..<16] ! i =
      ((bit t 7 \<noteq> bit t 11) # map (bit t) [0..<15]) ! i"
    by (simp add: spec_advance_bit nth_Cons' del: upt_Suc)
qed

text \<open>
  The bit that enters the register is the XOR of the bits that entered it 9 and 5 shifts
  earlier: the expected bits obey a recurrence over nine stages, as the PN9 sequence
  named on the display of the program does.
\<close>

lemma pn9_recurrence:
  "bit (advance (advance (advance (advance (advance
        (advance (advance (advance (advance t))))))))) 15 =
     (bit (advance (advance (advance (advance t)))) 15 \<noteq> bit t 15)"
  by (auto simp add: advance_bit)

text \<open>No shift produces sixteen ones: with cells 7 and 11 both 1 the bit shifted in is 0.\<close>

lemma advance_not_all_ones: "advance t \<noteq> 0xFFFF"
proof
  assume eq: "advance t = 0xFFFF"
  have "bit (advance t) 6" and "bit (advance t) 10" and "bit (advance t) 15"
    by (simp_all add: eq)
  then show False
    by (simp add: advance_bit)
qed

lemma funpow_advance_not_all_ones: "0 < n \<Longrightarrow> (advance ^^ n) t \<noteq> 0xFFFF"
  by (cases n) (simp_all add: advance_not_all_ones)

section \<open>Facts about the loops\<close>

lemma unat_word_succ: "(c :: 'a::len word) < t \<Longrightarrow> unat (c + 1) = Suc (unat c)"
  by unat_arith

lemma sync_iteration_match:
  "expected s = sample inp s \<Longrightarrow>
   sync_iteration inp s =
     s\<lparr>RenzokuError := RenzokuError s + 1, tap := advance (tap s),
       sampled := Suc (sampled s)\<rparr>"
  by (simp add: sync_iteration_def sync_body_def Let_def)

lemma sync_iteration_mismatch:
  "expected s \<noteq> sample inp s \<Longrightarrow>
   sync_iteration inp s =
     s\<lparr>RenzokuError := 1, tap := advance (override (tap s)), sampled := Suc (sampled s)\<rparr>"
  by (simp add: sync_iteration_def sync_body_def Let_def)

lemma sync_iteration_keeps:
  "ClockNeg (sync_iteration inp s) = ClockNeg s"
  "DataNeg (sync_iteration inp s) = DataNeg s"
  "ThresError (sync_iteration inp s) = ThresError s"
  "ErrorBits (sync_iteration inp s) = ErrorBits s"
  "TotalBits (sync_iteration inp s) = TotalBits s"
  "CountBits (sync_iteration inp s) = CountBits s"
  "TBI (sync_iteration inp s) = TBI s"
  "SYNC_LED (sync_iteration inp s) = SYNC_LED s"
  "sampled (sync_iteration inp s) = Suc (sampled s)"
  by (simp_all add: sync_iteration_def sync_body_def Let_def)

text \<open>A run of the sync loop in which every comparison matches.\<close>

lemma sync_loop_match_run:
  "n = unat (ThresError s) - unat (RenzokuError s) \<Longrightarrow>
   RenzokuError s \<le> ThresError s \<Longrightarrow>
   (\<forall>k<n. (inp (sampled s + k) \<noteq> DataNeg s) = bit ((advance ^^ k) (tap s)) 15) \<Longrightarrow>
   sync_loop inp s =
     Some (s\<lparr>RenzokuError := ThresError s, tap := (advance ^^ n) (tap s),
             sampled := sampled s + n\<rparr>)"
proof (induction n arbitrary: s)
  case 0
  then have "unat (ThresError s) \<le> unat (RenzokuError s)" by simp
  then have "ThresError s \<le> RenzokuError s" by (simp add: word_le_nat_alt)
  with 0 have eq: "RenzokuError s = ThresError s" by simp
  then have "sync_loop inp s = Some s"
    by (subst sync_loop.simps) simp
  moreover have "s\<lparr>RenzokuError := ThresError s, tap := tap s, sampled := sampled s\<rparr> = s"
    using eq by simp
  ultimately show ?case by simp
next
  case (Suc n)
  let ?s' = "sync_iteration inp s"
  from Suc.prems(1) have lt_nat: "unat (RenzokuError s) < unat (ThresError s)" by arith
  then have lt: "RenzokuError s < ThresError s" by (simp add: word_less_nat_alt)
  from Suc.prems(3) have m0: "expected s = sample inp s"
    by (auto simp add: expected_def sample_def)
  have s': "?s' = s\<lparr>RenzokuError := RenzokuError s + 1, tap := advance (tap s),
                     sampled := Suc (sampled s)\<rparr>"
    using m0 by (rule sync_iteration_match)
  have succ: "unat (RenzokuError s + 1) = Suc (unat (RenzokuError s))"
    using lt by (rule unat_word_succ)
  have a: "n = unat (ThresError ?s') - unat (RenzokuError ?s')"
    using Suc.prems(1) by (simp add: s' succ)
  have b: "RenzokuError ?s' \<le> ThresError ?s'"
    using lt by (simp add: s' inc_le)
  have c: "\<forall>k<n. (inp (sampled ?s' + k) \<noteq> DataNeg ?s') = bit ((advance ^^ k) (tap ?s')) 15"
  proof (intro allI impI)
    fix k assume "k < n"
    then have "Suc k < Suc n" by simp
    with Suc.prems(3)
    have "(inp (sampled s + Suc k) \<noteq> DataNeg s) = bit ((advance ^^ Suc k) (tap s)) 15"
      by blast
    then show "(inp (sampled ?s' + k) \<noteq> DataNeg ?s') = bit ((advance ^^ k) (tap ?s')) 15"
      by (simp add: s' funpow_swap1)
  qed
  have "sync_loop inp s = sync_loop inp ?s'"
    using lt by (subst sync_loop.simps) simp
  also have "\<dots> = Some (?s'\<lparr>RenzokuError := ThresError ?s', tap := (advance ^^ n) (tap ?s'),
             sampled := sampled ?s' + n\<rparr>)"
    using a b c by (rule Suc.IH)
  also have "?s'\<lparr>RenzokuError := ThresError ?s', tap := (advance ^^ n) (tap ?s'),
             sampled := sampled ?s' + n\<rparr> =
     s\<lparr>RenzokuError := ThresError s, tap := (advance ^^ Suc n) (tap s),
             sampled := sampled s + Suc n\<rparr>"
    by (simp add: s' funpow_swap1)
  finally show ?case .
qed

lemma mismatches_0: "mismatches inp neg t p 0 = 0"
  by (simp add: mismatches_def)

lemma mismatches_Suc:
  "mismatches inp neg t p (Suc n) =
     (if bit t 15 = (inp p \<noteq> neg) then 0 else 1) + mismatches inp neg (advance t) (Suc p) n"
proof -
  have "[0..<Suc n] = 0 # map Suc [0..<n]"
    by (simp add: upt_conv_Cons map_Suc_upt del: upt_Suc)
  then show ?thesis
    by (auto simp add: mismatches_def filter_map o_def funpow_swap1 simp del: upt_Suc)
qed

lemma mismatches_Suc_match:
  "bit t 15 = (inp p \<noteq> neg) \<Longrightarrow>
   mismatches inp neg t p (Suc n) = mismatches inp neg (advance t) (Suc p) n"
  by (simp add: mismatches_Suc)

lemma mismatches_Suc_mismatch:
  "bit t 15 \<noteq> (inp p \<noteq> neg) \<Longrightarrow>
   mismatches inp neg t p (Suc n) = Suc (mismatches inp neg (advance t) (Suc p) n)"
  by (simp add: mismatches_Suc)

lemma mismatches_le: "mismatches inp neg t p n \<le> n"
proof -
  have "mismatches inp neg t p n \<le> length [0..<n]"
    unfolding mismatches_def by (rule length_filter_le)
  then show ?thesis by simp
qed

lemma count_iteration_eq:
  "count_iteration inp s =
     s\<lparr>ErrorBits := ErrorBits s + (if expected s = sample inp s then 0 else 1),
       sampled := Suc (sampled s), tap := advance (tap s), CountBits := CountBits s + 1\<rparr>"
  by (simp add: count_iteration_def count_body_def Let_def)



lemma count_loop_run:
  "n = unat (TotalBits s) - unat (CountBits s) \<Longrightarrow>
   CountBits s \<le> TotalBits s \<Longrightarrow>
   count_loop inp s =
     s\<lparr>ErrorBits := ErrorBits s + of_nat (mismatches inp (DataNeg s) (tap s) (sampled s) n),
       sampled := sampled s + n, tap := (advance ^^ n) (tap s), CountBits := TotalBits s\<rparr>"
proof (induction n arbitrary: s)
  case 0
  then have "unat (TotalBits s) \<le> unat (CountBits s)" by simp
  then have "TotalBits s \<le> CountBits s" by (simp add: word_le_nat_alt)
  with 0 have eq: "CountBits s = TotalBits s" by simp
  then have "count_loop inp s = s"
    by (subst count_loop.simps) simp
  moreover have "s\<lparr>ErrorBits := ErrorBits s, sampled := sampled s, tap := tap s,
      CountBits := TotalBits s\<rparr> = s"
    using eq by simp
  ultimately show ?case by (simp add: mismatches_0)
next
  case (Suc n)
  let ?s' = "count_iteration inp s"
  from Suc.prems(1) have "unat (CountBits s) < unat (TotalBits s)" by arith
  then have lt: "CountBits s < TotalBits s" by (simp add: word_less_nat_alt)
  have succ: "unat (CountBits s + 1) = Suc (unat (CountBits s))"
    using lt by (rule unat_word_succ)
  have a: "n = unat (TotalBits ?s') - unat (CountBits ?s')"
    using Suc.prems(1) by (simp add: count_iteration_eq succ)
  have b: "CountBits ?s' \<le> TotalBits ?s'"
    using lt by (simp add: count_iteration_eq inc_le)
  have "count_loop inp s = count_loop inp ?s'"
    using lt by (subst count_loop.simps) simp
  also have "\<dots> = ?s'\<lparr>ErrorBits := ErrorBits ?s' +
        of_nat (mismatches inp (DataNeg ?s') (tap ?s') (sampled ?s') n),
      sampled := sampled ?s' + n, tap := (advance ^^ n) (tap ?s'),
      CountBits := TotalBits ?s'\<rparr>"
    using a b by (rule Suc.IH)
  also have "\<dots> = s\<lparr>ErrorBits := ErrorBits s +
        of_nat (mismatches inp (DataNeg s) (tap s) (sampled s) (Suc n)),
      sampled := sampled s + Suc n, tap := (advance ^^ Suc n) (tap s),
      CountBits := TotalBits s\<rparr>"
  proof (cases "expected s = sample inp s")
    case True
    then have "bit (tap s) 15 = (inp (sampled s) \<noteq> DataNeg s)"
      by (simp add: expected_def sample_def)
    then have "mismatches inp (DataNeg s) (tap s) (sampled s) (Suc n) =
        mismatches inp (DataNeg s) (advance (tap s)) (Suc (sampled s)) n"
      by (rule mismatches_Suc_match)
    with True show ?thesis
      by (simp add: count_iteration_eq funpow_swap1)
  next
    case False
    then have "bit (tap s) 15 \<noteq> (inp (sampled s) \<noteq> DataNeg s)"
      by (simp add: expected_def sample_def)
    then have "mismatches inp (DataNeg s) (tap s) (sampled s) (Suc n) =
        Suc (mismatches inp (DataNeg s) (advance (tap s)) (Suc (sampled s)) n)"
      by (rule mismatches_Suc_mismatch)
    with False show ?thesis
      by (simp add: count_iteration_eq funpow_swap1)
  qed
  finally show ?case .
qed

lemma count_phase_run:
  "count_phase inp s =
     s\<lparr>ErrorBits := ErrorBits s +
         of_nat (mismatches inp (DataNeg s) (tap s) (sampled s) (unat (TotalBits s))),
       sampled := sampled s + unat (TotalBits s),
       tap := (advance ^^ unat (TotalBits s)) (tap s), CountBits := TotalBits s\<rparr>"
proof -
  let ?s0 = "s\<lparr>CountBits := 0\<rparr>"
  have "count_loop inp ?s0 =
     ?s0\<lparr>ErrorBits := ErrorBits ?s0 +
         of_nat (mismatches inp (DataNeg ?s0) (tap ?s0) (sampled ?s0) (unat (TotalBits s))),
       sampled := sampled ?s0 + unat (TotalBits s),
       tap := (advance ^^ unat (TotalBits s)) (tap ?s0), CountBits := TotalBits ?s0\<rparr>"
    by (rule count_loop_run) simp_all
  then show ?thesis
    by (simp add: count_phase_def)
qed

text \<open>What a run of the sync loop that ends leaves unchanged.\<close>

lemma sync_loop_keeps:
  assumes "sync_loop inp s = Some r"
  shows "ClockNeg r = ClockNeg s \<and> DataNeg r = DataNeg s \<and> ThresError r = ThresError s \<and>
         ErrorBits r = ErrorBits s \<and> TotalBits r = TotalBits s \<and> CountBits r = CountBits s \<and>
         TBI r = TBI s \<and> SYNC_LED r = SYNC_LED s"
proof (rule sync_loop.raw_induct
    [where P = "\<lambda>inp s r. ClockNeg r = ClockNeg s \<and> DataNeg r = DataNeg s \<and>
         ThresError r = ThresError s \<and> ErrorBits r = ErrorBits s \<and>
         TotalBits r = TotalBits s \<and> CountBits r = CountBits s \<and>
         TBI r = TBI s \<and> SYNC_LED r = SYNC_LED s", OF _ assms])
  fix f :: "data_in \<Rightarrow> bert \<Rightarrow> bert option" and inp s r
  assume IH: "\<And>inp s r. f inp s = Some r \<Longrightarrow>
      ClockNeg r = ClockNeg s \<and> DataNeg r = DataNeg s \<and>
         ThresError r = ThresError s \<and> ErrorBits r = ErrorBits s \<and>
         TotalBits r = TotalBits s \<and> CountBits r = CountBits s \<and>
         TBI r = TBI s \<and> SYNC_LED r = SYNC_LED s"
    and step: "(if RenzokuError s < ThresError s then f inp (sync_iteration inp s)
        else Some s) = Some r"
  show "ClockNeg r = ClockNeg s \<and> DataNeg r = DataNeg s \<and>
         ThresError r = ThresError s \<and> ErrorBits r = ErrorBits s \<and>
         TotalBits r = TotalBits s \<and> CountBits r = CountBits s \<and>
         TBI r = TBI s \<and> SYNC_LED r = SYNC_LED s"
  proof (cases "RenzokuError s < ThresError s")
    case True
    with step have "f inp (sync_iteration inp s) = Some r" by simp
    from IH [OF this] show ?thesis by (simp add: sync_iteration_keeps)
  next
    case False
    with step show ?thesis by simp
  qed
qed

text \<open>Inverting the input together with the polarity flag.\<close>

lemma sample_invert: "sample (invert inp) (toggle_DataNeg s) = sample inp s"
  by (auto simp add: sample_def invert_def toggle_DataNeg_def)

lemma expected_toggle: "expected (toggle_DataNeg s) = expected s"
  by (simp add: expected_def toggle_DataNeg_def)

lemma sync_iteration_toggle:
  "sync_iteration (invert inp) (toggle_DataNeg s) = toggle_DataNeg (sync_iteration inp s)"
  by (simp add: sync_iteration_def sync_body_def Let_def sample_invert expected_toggle)
     (simp add: toggle_DataNeg_def)

lemma invert_invert: "invert (invert inp) = inp"
  by (rule ext) (simp add: invert_def)

lemma toggle_toggle: "toggle_DataNeg (toggle_DataNeg s) = s"
  by (simp add: toggle_DataNeg_def)

lemma sync_loop_toggle_Some:
  assumes "sync_loop inp s = Some r"
  shows "sync_loop (invert inp) (toggle_DataNeg s) = Some (toggle_DataNeg r)"
proof (rule sync_loop.raw_induct
    [where P = "\<lambda>inp s r. sync_loop (invert inp) (toggle_DataNeg s) = Some (toggle_DataNeg r)",
      OF _ assms])
  fix f :: "data_in \<Rightarrow> bert \<Rightarrow> bert option" and inp s r
  assume IH: "\<And>inp s r. f inp s = Some r \<Longrightarrow>
      sync_loop (invert inp) (toggle_DataNeg s) = Some (toggle_DataNeg r)"
    and step: "(if RenzokuError s < ThresError s then f inp (sync_iteration inp s)
        else Some s) = Some r"
  show "sync_loop (invert inp) (toggle_DataNeg s) = Some (toggle_DataNeg r)"
  proof (cases "RenzokuError s < ThresError s")
    case True
    with step have "f inp (sync_iteration inp s) = Some r" by simp
    then have "sync_loop (invert inp) (toggle_DataNeg (sync_iteration inp s)) =
        Some (toggle_DataNeg r)"
      by (rule IH)
    moreover have "RenzokuError (toggle_DataNeg s) < ThresError (toggle_DataNeg s)"
      using True by (simp add: toggle_DataNeg_def)
    ultimately show ?thesis
      by (subst sync_loop.simps) (simp add: sync_iteration_toggle)
  next
    case False
    with step have "r = s" by simp
    moreover have "\<not> RenzokuError (toggle_DataNeg s) < ThresError (toggle_DataNeg s)"
      using False by (simp add: toggle_DataNeg_def)
    ultimately show ?thesis
      by (subst sync_loop.simps) simp
  qed
qed

lemma sync_loop_toggle:
  "sync_loop (invert inp) (toggle_DataNeg s) = map_option toggle_DataNeg (sync_loop inp s)"
proof (cases "sync_loop inp s")
  case (Some r)
  then show ?thesis by (simp add: sync_loop_toggle_Some)
next
  case None
  show ?thesis
  proof (cases "sync_loop (invert inp) (toggle_DataNeg s)")
    case None
    with \<open>sync_loop inp s = None\<close> show ?thesis by simp
  next
    case (Some r')
    then have "sync_loop (invert (invert inp)) (toggle_DataNeg (toggle_DataNeg s)) =
        Some (toggle_DataNeg r')"
      by (rule sync_loop_toggle_Some)
    with \<open>sync_loop inp s = None\<close> show ?thesis
      by (simp add: invert_invert toggle_toggle)
  qed
qed

lemma mismatches_invert:
  "mismatches (invert inp) (\<not> neg) t p n = mismatches inp neg t p n"
proof -
  have "(\<lambda>k. bit ((advance ^^ k) t) 15 \<noteq> (invert inp (p + k) \<noteq> (\<not> neg))) =
      (\<lambda>k. bit ((advance ^^ k) t) 15 \<noteq> (inp (p + k) \<noteq> neg))"
    by (rule ext) (auto simp add: invert_def)
  then show ?thesis by (simp only: mismatches_def)
qed

lemma count_phase_toggle:
  "count_phase (invert inp) (toggle_DataNeg s) = toggle_DataNeg (count_phase inp s)"
  by (simp add: count_phase_run) (simp add: toggle_DataNeg_def mismatches_invert)

lemma countber_init_toggle:
  "countber_init (toggle_DataNeg s) = toggle_DataNeg (countber_init s)"
  by (simp add: countber_init_def toggle_DataNeg_def)

lemma countber_toggle:
  "countber (invert inp) (toggle_DataNeg s) = map_option toggle_DataNeg (countber inp s)"
proof -
  have led: "\<And>l. (toggle_DataNeg l)\<lparr>SYNC_LED := True\<rparr> = toggle_DataNeg (l\<lparr>SYNC_LED := True\<rparr>)"
    by (simp add: toggle_DataNeg_def)
  have rz: "\<And>l. (toggle_DataNeg l)\<lparr>RenzokuError := 0\<rparr> = toggle_DataNeg (l\<lparr>RenzokuError := 0\<rparr>)"
    by (simp add: toggle_DataNeg_def)
  have "sync_phase (invert inp) (countber_init (toggle_DataNeg s)) =
      map_option toggle_DataNeg (sync_phase inp (countber_init s))"
    by (simp add: sync_phase_def countber_init_toggle rz sync_loop_toggle)
  then show ?thesis
    by (cases "sync_phase inp (countber_init s)")
       (simp_all add: countber_def led count_phase_toggle)
qed

text \<open>
  With a threshold of at least 2, a run of the sync loop in which every comparison is a
  mismatch never leaves the loop: each turn sets the counter to 0 and the loop's
  increment makes it 1.
\<close>

lemma sync_loop_never_returns:
  assumes two: "2 \<le> ThresError s0"
    and low: "RenzokuError s0 \<le> 1"
    and mis: "\<forall>n. expected ((sync_iteration inp ^^ n) s0) \<noteq> sample inp ((sync_iteration inp ^^ n) s0)"
  shows "sync_loop inp s0 = None"
proof (rule ccontr)
  assume "sync_loop inp s0 \<noteq> None"
  then obtain r where run: "sync_loop inp s0 = Some r" by auto
  have "2 \<le> ThresError s0 \<and> RenzokuError s0 \<le> 1 \<and>
      (\<forall>n. expected ((sync_iteration inp ^^ n) s0) \<noteq> sample inp ((sync_iteration inp ^^ n) s0))
      \<longrightarrow> False"
  proof (rule sync_loop.raw_induct
      [where P = "\<lambda>inp s r. 2 \<le> ThresError s \<and> RenzokuError s \<le> 1 \<and>
        (\<forall>n. expected ((sync_iteration inp ^^ n) s) \<noteq> sample inp ((sync_iteration inp ^^ n) s))
        \<longrightarrow> False", OF _ run])
    fix f :: "data_in \<Rightarrow> bert \<Rightarrow> bert option" and inp s r
    assume IH: "\<And>inp s r. f inp s = Some r \<Longrightarrow>
        2 \<le> ThresError s \<and> RenzokuError s \<le> 1 \<and>
        (\<forall>n. expected ((sync_iteration inp ^^ n) s) \<noteq> sample inp ((sync_iteration inp ^^ n) s))
        \<longrightarrow> False"
      and step: "(if RenzokuError s < ThresError s then f inp (sync_iteration inp s)
          else Some s) = Some r"
    show "2 \<le> ThresError s \<and> RenzokuError s \<le> 1 \<and>
        (\<forall>n. expected ((sync_iteration inp ^^ n) s) \<noteq> sample inp ((sync_iteration inp ^^ n) s))
        \<longrightarrow> False"
    proof (intro impI, elim conjE)
      assume t: "2 \<le> ThresError s" and l: "RenzokuError s \<le> 1"
        and m: "\<forall>n. expected ((sync_iteration inp ^^ n) s) \<noteq>
            sample inp ((sync_iteration inp ^^ n) s)"
      from t l have "RenzokuError s < ThresError s" by unat_arith
      with step have call: "f inp (sync_iteration inp s) = Some r" by simp
      from m have "expected ((sync_iteration inp ^^ 0) s) \<noteq> sample inp ((sync_iteration inp ^^ 0) s)"
        by blast
      then have m0: "expected s \<noteq> sample inp s" by simp
      have r1: "RenzokuError (sync_iteration inp s) \<le> 1"
        by (simp add: sync_iteration_mismatch [OF m0])
      have t1: "2 \<le> ThresError (sync_iteration inp s)"
        using t by (simp add: sync_iteration_keeps)
      have m1: "\<forall>n. expected ((sync_iteration inp ^^ n) (sync_iteration inp s)) \<noteq>
            sample inp ((sync_iteration inp ^^ n) (sync_iteration inp s))"
      proof
        fix n
        from m have "expected ((sync_iteration inp ^^ Suc n) s) \<noteq>
            sample inp ((sync_iteration inp ^^ Suc n) s)"
          by blast
        then show "expected ((sync_iteration inp ^^ n) (sync_iteration inp s)) \<noteq>
            sample inp ((sync_iteration inp ^^ n) (sync_iteration inp s))"
          by (simp add: funpow_swap1)
      qed
      from IH [OF call] t1 r1 m1 show False by blast
    qed
  qed
  with two low mis show False by blast
qed

section \<open>Runs on the generator's own output\<close>

lemma funpow_advance_shift: "(advance ^^ k) ((advance ^^ p) t) = (advance ^^ (p + k)) t"
  by (simp add: funpow_add add.commute)

lemma mismatches_pn_data: "mismatches pn_data False ((advance ^^ p) 0xFFFF) p n = 0"
  by (simp add: mismatches_def pn_data_def funpow_advance_shift)

lemma sync_phase_pn_data:
  assumes "tap s = 0xFFFF" and "sampled s = 0" and "\<not> DataNeg s"
  shows "sync_phase pn_data s =
     Some (s\<lparr>RenzokuError := ThresError s, tap := (advance ^^ unat (ThresError s)) 0xFFFF,
             sampled := unat (ThresError s)\<rparr>)"
proof -
  let ?s0 = "s\<lparr>RenzokuError := 0\<rparr>"
  have "sync_loop pn_data ?s0 =
     Some (?s0\<lparr>RenzokuError := ThresError ?s0,
             tap := (advance ^^ unat (ThresError s)) (tap ?s0),
             sampled := sampled ?s0 + unat (ThresError s)\<rparr>)"
    by (rule sync_loop_match_run) (simp_all add: assms pn_data_def)
  then show ?thesis
    by (simp add: sync_phase_def assms)
qed

lemma countber_pn_data:
  assumes "tap s = 0xFFFF" and "sampled s = 0" and "\<not> DataNeg s"
  shows "countber pn_data s =
     Some (s\<lparr>RenzokuError := ThresError s, ErrorBits := 0, CountBits := TotalBits s,
             SYNC_LED := True,
             tap := (advance ^^ (unat (ThresError s) + unat (TotalBits s))) 0xFFFF,
             sampled := unat (ThresError s) + unat (TotalBits s)\<rparr>)"
proof -
  let ?l = "(countber_init s)\<lparr>RenzokuError := ThresError (countber_init s),
             tap := (advance ^^ unat (ThresError (countber_init s))) 0xFFFF,
             sampled := unat (ThresError (countber_init s))\<rparr>"
  have dn: "DataNeg s = False"
    using assms by simp
  have sync: "sync_phase pn_data (countber_init s) = Some ?l"
    by (rule sync_phase_pn_data) (simp_all add: countber_init_def assms)
  have "countber pn_data s = Some (count_phase pn_data (?l\<lparr>SYNC_LED := True\<rparr>))"
    by (simp only: countber_def sync option.case)
  also have "count_phase pn_data (?l\<lparr>SYNC_LED := True\<rparr>) =
      s\<lparr>RenzokuError := ThresError s, ErrorBits := 0, CountBits := TotalBits s,
             SYNC_LED := True,
             tap := (advance ^^ (unat (ThresError s) + unat (TotalBits s))) 0xFFFF,
             sampled := unat (ThresError s) + unat (TotalBits s)\<rparr>"
    by (simp add: count_phase_run countber_init_def dn mismatches_pn_data funpow_advance_shift)
  finally show ?thesis .
qed

lemma default_settings:
  "load_settings past_zero rom_2100 power_on =
     power_on\<lparr>TBI := 2, TotalBits := 10000, ThresError := 10\<rparr>"
  by (simp add: load_settings_def rom_2100_def power_on_def tbit_read_def tbit_def Let_def)

section \<open>Further facts\<close>

lemma settings_1000:
  "load_settings past_zero (rom_2100(2 := 0)) power_on =
     power_on\<lparr>TBI := 0, TotalBits := 1000, ThresError := 10\<rparr>"
  by (simp add: load_settings_def rom_2100_def power_on_def tbit_read_def tbit_def Let_def)

text \<open>A measurement that returns has counted \<open>TotalBits\<close> bits.\<close>

lemma countber_CountBits:
  assumes "countber inp s = Some r"
  shows "CountBits r = TotalBits s"
proof (cases "sync_phase inp (countber_init s)")
  case None
  with assms show ?thesis by (simp add: countber_def)
next
  case (Some l)
  then have "sync_loop inp ((countber_init s)\<lparr>RenzokuError := 0\<rparr>) = Some l"
    by (simp add: sync_phase_def)
  from sync_loop_keeps [OF this] have "TotalBits l = TotalBits s"
    by (simp add: countber_init_def)
  moreover from assms Some have "r = count_phase inp (l\<lparr>SYNC_LED := True\<rparr>)"
    by (simp add: countber_def)
  ultimately show ?thesis
    by (simp add: count_phase_run)
qed

lemma tbit_entries: "\<forall>x \<in> set tbit. 1000 \<le> x"
  by (simp add: tbit_def)

text \<open>\<open>setsetting\<close> keeps an index that is inside the table inside it.\<close>

lemma setsetting_keeps_index_in_table:
  assumes "TBI s < 6"
  shows "TBI (setsetting past s) < 6 \<and>
         TotalBits (setsetting past s) = tbit ! unat (TBI (setsetting past s))"
proof -
  have a: "TBI s + 1 \<noteq> 6 \<Longrightarrow> TBI s + 1 < 6"
    using assms by unat_arith
  have b: "x < 6 \<Longrightarrow> unat x < 6" for x :: "8 word"
    by unat_arith
  show ?thesis
    using a b [of "TBI s + 1"]
    by (auto simp add: setsetting_def tbit_read_def tbit_def Let_def)
qed

lemma toggle_DataNeg_counters:
  "ErrorBits (toggle_DataNeg s) = ErrorBits s"
  "CountBits (toggle_DataNeg s) = CountBits s"
  by (simp_all add: toggle_DataNeg_def)

lemma held_high_iterates:
  assumes "\<not> DataNeg s"
  shows "(sync_iteration data_high ^^ n) (s\<lparr>RenzokuError := 1, tap := 0x7FFF, sampled := p\<rparr>) =
     s\<lparr>RenzokuError := 1, tap := 0x7FFF, sampled := p + n\<rparr>"
proof (induction n)
  case 0
  show ?case by simp
next
  case (Suc n)
  have "sync_iteration data_high (s\<lparr>RenzokuError := 1, tap := 0x7FFF, sampled := p + n\<rparr>) =
      s\<lparr>RenzokuError := 1, tap := 0x7FFF, sampled := p + Suc n\<rparr>"
    using assms
    by (simp add: sync_iteration_def sync_body_def expected_def sample_def advance_def
        feedback_def shift_right_def override_def Let_def data_high_def)
  with Suc show ?case by simp
qed

text \<open>With the default settings and DATA_IN held high the sync phase never ends.\<close>

lemma held_high_never_locks:
  "sync_phase data_high (load_settings past_zero rom_2100 power_on) = None"
proof -
  let ?cfg = "power_on\<lparr>TBI := 2, TotalBits := 10000, ThresError := 10\<rparr>"
  let ?s1 = "?cfg\<lparr>RenzokuError := 1, tap := 0x7FFF, sampled := 1\<rparr>"
  have dn: "\<not> DataNeg ?cfg"
    by (simp add: power_on_def)
  have "sync_loop data_high ?s1 = None"
  proof (rule sync_loop_never_returns)
    show "2 \<le> ThresError ?s1" by simp
    show "RenzokuError ?s1 \<le> 1" by simp
    show "\<forall>n. expected ((sync_iteration data_high ^^ n) ?s1) \<noteq>
        sample data_high ((sync_iteration data_high ^^ n) ?s1)"
      unfolding held_high_iterates [OF dn]
      by (simp add: expected_def sample_def data_high_def power_on_def)
  qed
  moreover have "sync_phase data_high (load_settings past_zero rom_2100 power_on) =
      sync_loop data_high ?s1"
    unfolding default_settings sync_phase_def
    by (subst sync_loop.simps)
       (simp add: sync_iteration_def sync_body_def expected_def sample_def advance_def
        feedback_def shift_right_def override_def Let_def power_on_def data_high_def)
  ultimately show ?thesis by simp
qed

section \<open>The claims\<close>

text \<open>
  C1, as amended. Advancing the register computes the feedback bit as cell 7 XOR cell 11
  of the current cells, moves every cell one position towards the lower index, so that
  cell 0 is discarded, and puts the feedback bit into cell 15. The count phase applies
  this step to the register once per bit; the sync phase applies it once per bit to the
  register as it is after the comparison (unchanged, or with cell 15 complemented).
\<close>

theorem advance_shifts_towards_cell_0:
  "map (bit (advance t)) [0..<16] = map (bit t) [1..<16] @ [bit t 7 \<noteq> bit t 11] \<and>
   tap (count_body inp s) = advance (tap s) \<and>
   (tap (sync_body inp s) = advance (tap s) \<or>
    tap (sync_body inp s) = advance (override (tap s)))"
proof (intro conjI)
  show "map (bit (advance t)) [0..<16] = map (bit t) [1..<16] @ [bit t 7 \<noteq> bit t 11]"
  proof (rule nth_equalityI)
    show "length (map (bit (advance t)) [0..<16]) =
        length (map (bit t) [1..<16] @ [bit t 7 \<noteq> bit t 11])"
      by simp
  next
    fix i assume "i < length (map (bit (advance t)) [0..<16])"
    then show "map (bit (advance t)) [0..<16] ! i =
        (map (bit t) [1..<16] @ [bit t 7 \<noteq> bit t 11]) ! i"
      by (simp add: advance_bit nth_append del: upt_Suc)
  qed
next
  show "tap (count_body inp s) = advance (tap s)"
    by (simp add: count_body_def Let_def)
next
  show "tap (sync_body inp s) = advance (tap s) \<or>
      tap (sync_body inp s) = advance (override (tap s))"
    by (simp add: sync_body_def Let_def)
qed

text \<open>
  C1, counterexample. From sixteen ones the program's step clears cell 15 and keeps
  cell 0; the step of the specification clears cell 0 and keeps cell 15.
\<close>

theorem advance_is_not_spec_advance:
  "advance 0xFFFF = 0x7FFF \<and> spec_advance 0xFFFF = 0xFFFE"
  by (simp add: advance_def spec_advance_def feedback_def shift_right_def)

text \<open>
  C2, as amended. Complementing cell 15 does not change the feedback bit of the shift
  that follows, but it changes the state after that shift: the complemented value is
  kept and moves to cell 14, so the two states differ in exactly cell 14. After every
  turn of the sync loop cell 14 holds the polarity-corrected bit just sampled.
\<close>

theorem override_is_kept_in_cell_14:
  "feedback (override t) = feedback t \<and>
   advance (override t) = flip_bit 14 (advance t) \<and>
   bit (tap (sync_body inp s)) 14 = sample inp s"
proof (intro conjI)
  show "feedback (override t) = feedback t"
    by (simp add: feedback_def override_bit)
next
  show "advance (override t) = flip_bit 14 (advance t)"
    by (rule bit_word_eqI) (auto simp add: advance_bit override_bit bit_simps)
next
  show "bit (tap (sync_body inp s)) 14 = sample inp s"
    by (auto simp add: sync_body_def Let_def advance_bit override_bit expected_def)
qed

text \<open>
  C2, counterexample. From sixteen ones, complementing cell 15 and shifting gives a state
  other than shifting alone, and after five shifts the expected bit differs.
\<close>

theorem override_reaches_later_bits:
  "advance (override 0xFFFF) \<noteq> advance 0xFFFF \<and>
   bit (advance (advance (advance (advance (advance (override 0xFFFF)))))) 15 \<noteq>
   bit (advance (advance (advance (advance (advance 0xFFFF))))) 15"
  by (simp add: advance_def override_def feedback_def shift_right_def)

text \<open>
  C3, as amended. \<open>countber\<close> writes nothing to the register before its first
  comparison: the first comparison of a measurement uses the register as it was when
  \<open>countber\<close> was called. Sixteen ones are the initial value of the array at power-on
  only.
\<close>

theorem countber_does_not_write_tap_before_sync:
  "tap (countber_init s) = tap s \<and> expected (countber_init s) = expected s"
  by (simp add: countber_init_def expected_def)

text \<open>
  C3, counterexample. With the default settings and an input equal to the generator's own
  output, the first measurement returns, and the register with which a second measurement
  makes its first comparison is not sixteen ones.
\<close>

theorem second_measurement_starts_from_left_state:
  "countber pn_data (load_settings past_zero rom_2100 power_on) \<noteq> None \<and>
   map_option (tap \<circ> countber_init) (countber pn_data (load_settings past_zero rom_2100 power_on))
     \<noteq> Some 0xFFFF"
proof -
  let ?cfg = "power_on\<lparr>TBI := 2, TotalBits := 10000, ThresError := 10\<rparr>"
  have "countber pn_data ?cfg =
     Some (?cfg\<lparr>RenzokuError := ThresError ?cfg, ErrorBits := 0, CountBits := TotalBits ?cfg,
             SYNC_LED := True,
             tap := (advance ^^ (unat (ThresError ?cfg) + unat (TotalBits ?cfg))) 0xFFFF,
             sampled := unat (ThresError ?cfg) + unat (TotalBits ?cfg)\<rparr>)"
    by (rule countber_pn_data) (simp_all add: power_on_def)
  moreover have "(advance ^^ (unat (ThresError ?cfg) + unat (TotalBits ?cfg))) 0xFFFF \<noteq> 0xFFFF"
    by (rule funpow_advance_not_all_ones) simp
  ultimately show ?thesis
    by (simp add: default_settings countber_init_def)
qed

text \<open>
  C4. After a mismatch in the sync phase the counter is 0 at the end of the loop body, but
  the loop's increment makes it 1 before the next test, so that \<open>ThresError - 1\<close> further
  matches declare lock where the claim requires \<open>ThresError\<close>. With a threshold of 2 and
  DATA_IN held low, the first bit is a mismatch and lock is declared after the second bit,
  that is, after a single match.
\<close>

theorem one_match_locks_after_mismatch:
  "expected (power_on\<lparr>ThresError := 2\<rparr>) \<noteq> sample data_low (power_on\<lparr>ThresError := 2\<rparr>) \<and>
   RenzokuError (sync_body data_low (power_on\<lparr>ThresError := 2\<rparr>)) = 0 \<and>
   RenzokuError (sync_iteration data_low (power_on\<lparr>ThresError := 2\<rparr>)) = 1 \<and>
   sync_phase data_low (power_on\<lparr>ThresError := 2\<rparr>) =
     Some (power_on\<lparr>ThresError := 2, RenzokuError := 2, tap := 0x1FFF, sampled := 2\<rparr>)"
  by (simp add: sync_phase_def sync_loop.simps sync_iteration_def sync_body_def expected_def
      sample_def advance_def feedback_def shift_right_def override_def Let_def power_on_def
      data_low_def)

text \<open>
  C5. When the sync phase of a measurement ends in state \<open>l\<close>, the measurement returns;
  on return \<open>CountBits\<close> equals \<open>TotalBits\<close>, exactly \<open>TotalBits\<close> bits have been
  sampled since lock, the register has been shifted \<open>TotalBits\<close> times and not written
  otherwise, and \<open>ErrorBits\<close> is the number of those bits whose polarity-corrected
  value differed from the expected bit.
\<close>

theorem count_phase_counts_exactly:
  assumes "sync_phase inp (countber_init s) = Some l"
  shows "\<exists>r. countber inp s = Some r \<and>
           CountBits r = TotalBits s \<and>
           sampled r = sampled l + unat (TotalBits s) \<and>
           tap r = (advance ^^ unat (TotalBits s)) (tap l) \<and>
           unat (ErrorBits r) =
             mismatches inp (DataNeg s) (tap l) (sampled l) (unat (TotalBits s))"
proof -
  let ?n = "unat (TotalBits s)"
  let ?m = "mismatches inp (DataNeg s) (tap l) (sampled l) ?n"
  from assms have "sync_loop inp ((countber_init s)\<lparr>RenzokuError := 0\<rparr>) = Some l"
    by (simp add: sync_phase_def)
  from sync_loop_keeps [OF this]
  have keep: "ErrorBits l = 0" "TotalBits l = TotalBits s" "DataNeg l = DataNeg s"
    by (simp_all add: countber_init_def)
  have run: "countber inp s = Some (count_phase inp (l\<lparr>SYNC_LED := True\<rparr>))"
    by (simp add: countber_def assms)
  have "?m \<le> unat (TotalBits s)"
    by (rule mismatches_le)
  then have "unat (word_of_nat ?m :: 16 word) = ?m"
    by (rule le_unat_uoi)
  then have "unat (ErrorBits (count_phase inp (l\<lparr>SYNC_LED := True\<rparr>))) = ?m"
    by (simp add: count_phase_run keep)
  with run show ?thesis
    by (simp add: count_phase_run keep)
qed

text \<open>
  C5, witness: 1000 bits of the generator's own output give 0 errors in 1000 counted bits.
\<close>

theorem count_phase_counts_exactly_witness:
  "map_option CountBits (countber pn_data (load_settings past_zero (rom_2100(2 := 0)) power_on))
     = Some 1000 \<and>
   map_option ErrorBits (countber pn_data (load_settings past_zero (rom_2100(2 := 0)) power_on))
     = Some 0"
proof -
  let ?cfg = "load_settings past_zero (rom_2100(2 := 0)) power_on"
  let ?l = "(countber_init ?cfg)\<lparr>RenzokuError := ThresError (countber_init ?cfg),
      tap := (advance ^^ unat (ThresError (countber_init ?cfg))) 0xFFFF,
      sampled := unat (ThresError (countber_init ?cfg))\<rparr>"
  have h: "sync_phase pn_data (countber_init ?cfg) = Some ?l"
    unfolding settings_1000
    by (rule sync_phase_pn_data) (simp_all add: countber_init_def power_on_def)
  have m: "mismatches pn_data (DataNeg ?cfg) (tap ?l) (sampled ?l) (unat (TotalBits ?cfg)) = 0"
    unfolding settings_1000
    by (simp add: countber_init_def power_on_def mismatches_pn_data)
  from count_phase_counts_exactly [OF h] m show ?thesis
    unfolding settings_1000 by (auto simp add: unat_eq_0)
qed

text \<open>
  C6. With a threshold of 1 the sync phase ends after one sampled bit even when that bit
  is a mismatch: the loop's increment makes the counter 1. (For thresholds of at least 2
  the statement of the claim holds, see \<open>sync_loop_never_returns\<close>.)
\<close>

theorem threshold_1_locks_on_mismatch:
  "expected (power_on\<lparr>ThresError := 1\<rparr>) \<noteq> sample data_low (power_on\<lparr>ThresError := 1\<rparr>) \<and>
   sync_phase data_low (power_on\<lparr>ThresError := 1\<rparr>) =
     Some (power_on\<lparr>ThresError := 1, RenzokuError := 1, tap := 0x3FFF, sampled := 1\<rparr>)"
  by (simp add: sync_phase_def sync_loop.simps sync_iteration_def sync_body_def expected_def
      sample_def advance_def feedback_def shift_right_def override_def Let_def power_on_def
      data_low_def)

text \<open>
  C7. If each of the first \<open>ThresError\<close> sampled bits equals the expected bit of a
  register that runs free from the state at the start of the sync phase (in particular
  from sixteen ones), the sync phase ends after exactly \<open>ThresError\<close> sampled bits, the
  register having been shifted once per bit.
\<close>

theorem sync_locks_after_ThresError_matches:
  assumes "\<forall>k<unat (ThresError s).
      (inp (sampled s + k) \<noteq> DataNeg s) = bit ((advance ^^ k) (tap s)) 15"
  shows "sync_phase inp s =
     Some (s\<lparr>RenzokuError := ThresError s,
             tap := (advance ^^ unat (ThresError s)) (tap s),
             sampled := sampled s + unat (ThresError s)\<rparr>)"
proof -
  let ?s0 = "s\<lparr>RenzokuError := 0\<rparr>"
  have "sync_loop inp ?s0 =
     Some (?s0\<lparr>RenzokuError := ThresError ?s0,
             tap := (advance ^^ unat (ThresError s)) (tap ?s0),
             sampled := sampled ?s0 + unat (ThresError s)\<rparr>)"
    using assms by (intro sync_loop_match_run) simp_all
  then show ?thesis
    by (simp add: sync_phase_def)
qed

text \<open>
  C7, witness: the default settings, the register at sixteen ones, the generator's own
  output as input.
\<close>

theorem sync_locks_after_ThresError_matches_witness:
  "tap (load_settings past_zero rom_2100 power_on) = 0xFFFF \<and>
   sync_phase pn_data (load_settings past_zero rom_2100 power_on) =
     Some ((load_settings past_zero rom_2100 power_on)
            \<lparr>RenzokuError := 10, tap := (advance ^^ 10) 0xFFFF, sampled := 10\<rparr>)"
proof -
  let ?cfg = "load_settings past_zero rom_2100 power_on"
  have h: "\<forall>k<unat (ThresError ?cfg).
      (pn_data (sampled ?cfg + k) \<noteq> DataNeg ?cfg) = bit ((advance ^^ k) (tap ?cfg)) 15"
    unfolding default_settings by (simp add: power_on_def pn_data_def)
  from sync_locks_after_ThresError_matches [OF h] show ?thesis
    unfolding default_settings by (simp add: power_on_def)
qed

text \<open>
  C8. A measurement with the data polarity flag toggled and every input level inverted
  gives the same \<open>ErrorBits\<close> and the same \<open>CountBits\<close> as the original measurement
  (and returns exactly when the original one does).
\<close>

theorem polarity_relabelling:
  "map_option ErrorBits (countber (invert inp) (toggle_DataNeg s)) =
     map_option ErrorBits (countber inp s) \<and>
   map_option CountBits (countber (invert inp) (toggle_DataNeg s)) =
     map_option CountBits (countber inp s)"
  by (simp add: countber_toggle option.map_comp o_def toggle_DataNeg_counters)

text \<open>
  C9, as amended. \<open>show_ber\<close> divides by \<open>CountBits\<close> without testing it and has no
  failure outcome. After a measurement that has returned, \<open>CountBits\<close> equals
  \<open>TotalBits\<close>, so the divisor is the configured length.
\<close>

theorem show_ber_divisor:
  assumes "countber inp s = Some r"
  shows "divisor (BER (show_ber r)) = Some (CountBits r) \<and> CountBits r = TotalBits s"
  using countber_CountBits [OF assms] by (simp add: show_ber_def Let_def)

text \<open>C9, witness: a measurement of 1000 bits.\<close>

theorem show_ber_divisor_witness:
  "map_option (divisor \<circ> BER \<circ> show_ber)
     (countber pn_data (load_settings past_zero (rom_2100(2 := 0)) power_on)) = Some (Some 1000)"
proof -
  let ?cfg = "power_on\<lparr>TBI := 0, TotalBits := 1000, ThresError := 10\<rparr>"
  let ?r = "?cfg\<lparr>RenzokuError := ThresError ?cfg, ErrorBits := 0, CountBits := TotalBits ?cfg,
             SYNC_LED := True,
             tap := (advance ^^ (unat (ThresError ?cfg) + unat (TotalBits ?cfg))) 0xFFFF,
             sampled := unat (ThresError ?cfg) + unat (TotalBits ?cfg)\<rparr>"
  have h: "countber pn_data ?cfg = Some ?r"
    by (rule countber_pn_data) (simp_all add: power_on_def)
  from show_ber_divisor [OF h] h show ?thesis
    unfolding settings_1000 by simp
qed

text \<open>
  C9, counterexample. With \<open>CountBits\<close> equal to 0, \<open>show_ber\<close> forms the quotient with
  the divisor 0 and prints.
\<close>

theorem show_ber_divides_without_guard:
  "CountBits power_on = 0 \<and>
   show_ber power_on = \<lparr>BER = Times_100 (Quotient (Of_long 0) (Of_long 0)), E = 0, C = 0\<rparr>"
  by (simp add: show_ber_def power_on_def Let_def)

text \<open>
  C10, as amended. Loading the settings stores the index read from the EEPROM as it is
  and uses it at once to read \<open>TotalBits\<close> from the table; for an index of at most 5
  this is the table entry. There is no test of the index and no failure outcome.
\<close>

theorem load_settings_uses_index_unchecked:
  "TBI (load_settings past ee s) = ee 2 \<and>
   TotalBits (load_settings past ee s) = tbit_read past (ee 2) \<and>
   (unat (ee 2) < 6 \<longrightarrow> tbit_read past (ee 2) = tbit ! unat (ee 2))"
  by (simp add: load_settings_def tbit_read_def tbit_def Let_def)

text \<open>C10, witness: the default EEPROM content, index 2.\<close>

theorem load_settings_uses_index_unchecked_witness:
  "unat (rom_2100 2) < 6 \<and>
   TBI (load_settings past_zero rom_2100 power_on) = 2 \<and>
   TotalBits (load_settings past_zero rom_2100 power_on) = 10000"
  using load_settings_uses_index_unchecked [of past_zero rom_2100 power_on]
  by (simp add: rom_2100_def tbit_def)

text \<open>
  C10, counterexample. With index 6 in the EEPROM the load stores 6 and reads the table
  at 6.
\<close>

theorem load_settings_accepts_index_6:
  "TBI (load_settings past_zero (rom_2100(2 := 6)) power_on) = 6 \<and>
   TotalBits (load_settings past_zero (rom_2100(2 := 6)) power_on) = past_zero 6"
  by (simp add: load_settings_def tbit_read_def tbit_def Let_def)

end
